theory Spec2Isabelle
  imports Main
begin

section \<open>Offline layer of the planning-precedent application\<close>

text \<open>
  The development embeds the service worker (request interception, cache policy,
  background sync, lifecycle and push handling), the IndexedDB helpers of the PWA
  utilities and the two persisted Zustand stores. Promises are modelled by their
  outcome: a rejection is the \<open>Inl\<close> of a sum, a resolution the \<open>Inr\<close>. State that
  the source mutates (cache storage, object stores) is passed in and returned.
\<close>

datatype error = NetworkError | StorageError | DataError | TypeError

subsection \<open>Requests and responses\<close>

text \<open>
  A request carries what the worker reads of it: whether \<open>url.origin\<close> is the worker's
  own origin, \<open>url.pathname\<close>, the query string, the method and the mode. A response
  carries its status, its \<open>Content-Type\<close> header and its body. \<open>fetch\<close> either rejects
  (the network failed) or resolves with a response of any status: an HTTP error status
  is a resolved promise.
\<close>

datatype http_method = GET | HEAD | POST | PUT | PATCH | DELETE | OPTIONS

datatype request_mode = Navigate | SameOrigin | NoCors | Cors

record request =
  req_same_origin :: bool
  req_pathname :: string
  req_search :: string
  req_method :: http_method
  req_mode :: request_mode

record response =
  resp_status :: nat
  resp_content_type :: string
  resp_body :: string

datatype fetch_outcome = Rejected | Resolved response

text \<open>\<open>Response.ok\<close>: the status is in the range 200 to 299.\<close>

definition ok :: "response \<Rightarrow> bool" where
  "ok r = (200 \<le> resp_status r \<and> resp_status r \<le> 299)"

definition request_url :: "request \<Rightarrow> string" where
  "request_url r = req_pathname r @ req_search r"

subsection \<open>The object store \<open>pending-actions\<close>\<close>

text \<open>
  The store is created with \<open>{ keyPath: 'id', autoIncrement: true }\<close>. IndexedDB keeps a
  key generator per store: it starts at 1, \<open>add\<close> of a record without a key takes the
  current number as the key and advances the generator. \<open>getAll\<close> returns the records
  in ascending key order. A request of the platform either fires \<open>onsuccess\<close> or
  \<open>onerror\<close>; the latter is a fault of the storage, given to the model as a parameter
  (\<open>None\<close>: the storage works).
\<close>

record pending_action =
  a_id :: nat
  a_type :: string
  a_data :: string
  a_timestamp :: nat

record action_store =
  keygen :: nat
  rows :: "pending_action list"

definition empty_store :: action_store where
  "empty_store = \<lparr>keygen = 1, rows = []\<rparr>"

definition store_add :: "string \<Rightarrow> string \<Rightarrow> nat \<Rightarrow> action_store \<Rightarrow> action_store" where
  "store_add ty d now st =
     \<lparr>keygen = Suc (keygen st),
      rows = rows st @ [\<lparr>a_id = keygen st, a_type = ty, a_data = d, a_timestamp = now\<rparr>]\<rparr>"

definition store_getAll :: "action_store \<Rightarrow> pending_action list" where
  "store_getAll st = sort_key a_id (rows st)"

definition store_delete :: "nat \<Rightarrow> action_store \<Rightarrow> action_store" where
  "store_delete i st = st\<lparr>rows := filter (\<lambda>a. a_id a \<noteq> i) (rows st)\<rparr>"

text \<open>
  \<open>queueOfflineAction(type, data)\<close> of the PWA utilities: \<open>store.add({type, data,
  timestamp: Date.now()})\<close>. The clock value is the parameter \<open>now\<close>. The background-sync
  registration that follows does not touch the store.
\<close>

definition queueOfflineAction :: "string \<Rightarrow> string \<Rightarrow> nat \<Rightarrow> action_store \<Rightarrow> action_store" where
  "queueOfflineAction ty d now st = store_add ty d now st"

text \<open>An enqueue request: type, data and the clock value at the call.\<close>

type_synonym enqueue = "string \<times> string \<times> nat"

fun queueAll :: "enqueue list \<Rightarrow> action_store \<Rightarrow> action_store" where
  "queueAll [] st = st"
| "queueAll ((ty, d, now) # es) st = queueAll es (queueOfflineAction ty d now st)"

text \<open>
  \<open>getPendingActions(db, type)\<close> of the service worker: \<open>getAll\<close>, then
  \<open>filter(a => a.type === type)\<close>; the promise rejects when the request fails.
\<close>

definition getPendingActions :: "error option \<Rightarrow> action_store \<Rightarrow> string \<Rightarrow> error + pending_action list" where
  "getPendingActions fault st ty =
     (case fault of
        Some e \<Rightarrow> Inl e
      | None \<Rightarrow> Inr (filter (\<lambda>a. a_type a = ty) (store_getAll st)))"

text \<open>
  \<open>removePendingAction(db, type, id)\<close>: \<open>store.delete(id)\<close>; the \<open>type\<close> argument is not
  used. Deleting a key that is not in the store fires \<open>onsuccess\<close> like any other delete.
\<close>

definition removePendingAction :: "error option \<Rightarrow> action_store \<Rightarrow> string \<Rightarrow> nat \<Rightarrow> error + action_store" where
  "removePendingAction fault st ty i =
     (case fault of
        Some e \<Rightarrow> Inl e
      | None \<Rightarrow> Inr (store_delete i st))"

text \<open>
  The invariant of the store: keys ascend strictly in insertion order and lie below the
  key generator. It holds of the empty store and every operation keeps it.
\<close>

definition store_wf :: "action_store \<Rightarrow> bool" where
  "store_wf st = (sorted_wrt (<) (map a_id (rows st)) \<and> list_all (\<lambda>a. a_id a < keygen st) (rows st))"

definition payload :: "pending_action \<Rightarrow> enqueue" where
  "payload a = (a_type a, a_data a, a_timestamp a)"

text \<open>A store with two queued saves, used to evaluate the queue operations.\<close>

definition two_saves :: action_store where
  "two_saves = \<lparr>keygen = 3, rows =
     [\<lparr>a_id = 1, a_type = ''saved-cases'', a_data = ''A'', a_timestamp = 10\<rparr>,
      \<lparr>a_id = 2, a_type = ''saved-cases'', a_data = ''B'', a_timestamp = 12\<rparr>]\<rparr>"

text \<open>Two saves with a search in between, as enqueue requests.\<close>

definition three_enqueues :: "enqueue list" where
  "three_enqueues =
     [(''saved-cases'', ''A'', 10), (''search-history'', ''q'', 11), (''saved-cases'', ''B'', 12)]"

subsection \<open>Background sync\<close>

text \<open>
  What the environment does during one drain: whether \<open>openDatabase\<close> rejects, whether
  the \<open>getAll\<close> request fails, the outcome of the replay \<open>fetch\<close> of each item and whether
  the delete request of each item fails.
\<close>

record sync_env =
  open_fault :: "error option"
  list_fault :: "error option"
  replay :: "pending_action \<Rightarrow> fetch_outcome"
  delete_fault :: "pending_action \<Rightarrow> error option"

text \<open>
  The body of the \<open>for (const item of pending)\<close> loop, shared by \<open>syncSavedCases\<close> and
  \<open>syncSearchHistory\<close>: \<open>await fetch(endpoint, {method: 'POST', body:
  JSON.stringify(item.data)})\<close>, then \<open>await removePendingAction(db, type, item.id)\<close>,
  both inside \<open>try\<close>; the \<open>catch\<close> logs and the loop goes on. The response of the fetch
  is not inspected. The loop runs over the list read before the first replay. The second
  component collects the requests sent, as (endpoint, body). The \<open>console.log\<close> that
  follows the removal in \<open>syncSavedCases\<close> changes no state.
\<close>

fun drain :: "sync_env \<Rightarrow> string \<Rightarrow> string \<Rightarrow> pending_action list \<Rightarrow> action_store
    \<Rightarrow> action_store \<times> (string \<times> string) list" where
  "drain env endpoint ty [] st = (st, [])"
| "drain env endpoint ty (a # as) st =
     (let st1 =
        (case replay env a of
           Rejected \<Rightarrow> st
         | Resolved r \<Rightarrow>
             (case removePendingAction (delete_fault env a) st ty (a_id a) of
                Inl e \<Rightarrow> st
              | Inr st' \<Rightarrow> st'));
        (st2, sent) = drain env endpoint ty as st1
      in (st2, (endpoint, a_data a) # sent))"

definition sync :: "sync_env \<Rightarrow> string \<Rightarrow> string \<Rightarrow> action_store
    \<Rightarrow> action_store \<times> (string \<times> string) list" where
  "sync env endpoint ty st =
     (case open_fault env of
        Some e \<Rightarrow> (st, [])
      | None \<Rightarrow>
          (case getPendingActions (list_fault env) st ty of
             Inl e \<Rightarrow> (st, [])
           | Inr pending \<Rightarrow> drain env endpoint ty pending st))"

definition syncSavedCases :: "sync_env \<Rightarrow> action_store \<Rightarrow> action_store \<times> (string \<times> string) list" where
  "syncSavedCases env st = sync env ''/api/v1/users/saved-cases'' ''saved-cases'' st"

definition syncSearchHistory :: "sync_env \<Rightarrow> action_store \<Rightarrow> action_store \<times> (string \<times> string) list" where
  "syncSearchHistory env st = sync env ''/api/v1/users/search-history'' ''search-history'' st"

text \<open>
  The scenario of the partial queue failure: the storage works, the remote endpoint
  answers the replay of the first item with status 500 and the second with 201.
\<close>

definition server_error :: response where
  "server_error = \<lparr>resp_status = 500, resp_content_type = ''application/json'', resp_body = ''{}''\<rparr>"

definition created :: response where
  "created = \<lparr>resp_status = 201, resp_content_type = ''application/json'', resp_body = ''{}''\<rparr>"

definition first_fails_500 :: sync_env where
  "first_fails_500 =
     \<lparr>open_fault = None, list_fault = None,
      replay = (\<lambda>a. if a_id a = 1 then Resolved server_error else Resolved created),
      delete_fault = (\<lambda>a. None)\<rparr>"

text \<open>The same scenario with the network failing for the first item instead.\<close>

definition first_fails_network :: sync_env where
  "first_fails_network =
     \<lparr>open_fault = None, list_fault = None,
      replay = (\<lambda>a. if a_id a = 1 then Rejected else Resolved created),
      delete_fault = (\<lambda>a. None)\<rparr>"

subsection \<open>Cache storage\<close>

text \<open>
  \<open>caches\<close> is the platform's CacheStorage: named caches in creation order, each a list
  of entries (request URL, response). Only the behaviour the worker relies on is
  modelled, and the operations of CacheStorage are taken to succeed:
  \<^item> \<open>caches.open(name)\<close> creates an empty cache of that name when there is none;
  \<^item> \<open>cache.put(request, response)\<close> rejects with a TypeError when the request method is
    not GET or the response status is 206, and otherwise replaces the entries of that
    URL by the new one. The worker never awaits the promise of \<open>put\<close>, so its rejection
    reaches no handler and the cache stays as it was;
  \<^item> \<open>match\<close> finds no entry for a request whose method is not GET; \<open>caches.match\<close> asks
    the caches in creation order and returns the first entry found.
\<close>

type_synonym cache = "(string \<times> response) list"

type_synonym cache_storage = "(string \<times> cache) list"

definition CACHE_NAME :: string where
  "CACHE_NAME = ''planning-precedent-v1''"

definition OFFLINE_URL :: string where
  "OFFLINE_URL = ''/offline''"

definition API_CACHE_ROUTES :: "string list" where
  "API_CACHE_ROUTES =
     [''/api/v1/search/development-types'',
      ''/api/v1/search/conservation-areas'',
      ''/api/v1/wards'',
      ''/api/v1/policies'']"

definition caches_keys :: "cache_storage \<Rightarrow> string list" where
  "caches_keys cs = map fst cs"

definition caches_open :: "string \<Rightarrow> cache_storage \<Rightarrow> cache_storage" where
  "caches_open name cs = (if name \<in> set (caches_keys cs) then cs else cs @ [(name, [])])"

definition caches_delete :: "string \<Rightarrow> cache_storage \<Rightarrow> cache_storage" where
  "caches_delete name cs = filter (\<lambda>(n, c). n \<noteq> name) cs"

definition cache_put :: "request \<Rightarrow> response \<Rightarrow> cache \<Rightarrow> cache" where
  "cache_put req resp c =
     (if req_method req \<noteq> GET \<or> resp_status resp = 206 then c
      else filter (\<lambda>(u, r). u \<noteq> request_url req) c @ [(request_url req, resp)])"

definition cache_match :: "cache \<Rightarrow> http_method \<Rightarrow> string \<Rightarrow> response option" where
  "cache_match c m url = (if m \<noteq> GET then None else map_of c url)"

fun caches_match :: "cache_storage \<Rightarrow> http_method \<Rightarrow> string \<Rightarrow> response option" where
  "caches_match [] m url = None"
| "caches_match ((n, c) # cs) m url =
     (case cache_match c m url of
        Some r \<Rightarrow> Some r
      | None \<Rightarrow> caches_match cs m url)"

text \<open>
  The two lines \<open>const cache = await caches.open(CACHE_NAME); cache.put(request,
  networkResponse.clone());\<close> that the three handlers share.
\<close>

definition open_and_put :: "request \<Rightarrow> response \<Rightarrow> cache_storage \<Rightarrow> cache_storage" where
  "open_and_put req resp cs =
     map (\<lambda>(n, c). if n = CACHE_NAME then (n, cache_put req resp c) else (n, c))
       (caches_open CACHE_NAME cs)"

text \<open>All entries of the storage, each with the name of its cache.\<close>

definition cache_entries :: "cache_storage \<Rightarrow> (string \<times> string \<times> response) list" where
  "cache_entries cs = concat (map (\<lambda>(n, c). map (\<lambda>(u, r). (n, u, r)) c) cs)"

subsection \<open>The fetch handlers\<close>

text \<open>\<open>String.prototype.includes\<close> (here \<open>str_includes\<close>) and \<open>startsWith\<close>.\<close>

definition startsWith :: "string \<Rightarrow> string \<Rightarrow> bool" where
  "startsWith s p = (take (length p) s = p)"

fun str_includes :: "string \<Rightarrow> string \<Rightarrow> bool" where
  "str_includes [] p = (p = [])"
| "str_includes (c # s) p = (startsWith (c # s) p \<or> str_includes s p)"

definition shouldCache :: "request \<Rightarrow> bool" where
  "shouldCache req = list_ex (\<lambda>route. str_includes (req_pathname req) route) API_CACHE_ROUTES"

text \<open>The synthesized responses: the JSON error payload and the inline HTML document.\<close>

definition offline_api_response :: response where
  "offline_api_response =
     \<lparr>resp_status = 503, resp_content_type = ''application/json'',
      resp_body = ''{'' @ [CHR 0x22] @ ''error'' @ [CHR 0x22] @ '':'' @ [CHR 0x22] @ ''Offline'' @ [CHR 0x22]
        @ '','' @ [CHR 0x22] @ ''message'' @ [CHR 0x22] @ '':'' @ [CHR 0x22]
        @ ''You are offline. Please check your connection.'' @ [CHR 0x22] @ ''}''\<rparr>"

definition inline_offline_page :: response where
  "inline_offline_page =
     \<lparr>resp_status = 503, resp_content_type = ''text/html'',
      resp_body = ''<html><body><h1>Offline</h1><p>Please check your connection.</p></body></html>''\<rparr>"

text \<open>
  Each handler takes the request, the cache storage and the outcome of \<open>fetch(request)\<close>,
  and returns what its promise settles to (\<open>Inl\<close>: rejected) with the storage afterwards.
\<close>

definition handleApiRequest :: "request \<Rightarrow> cache_storage \<Rightarrow> fetch_outcome \<Rightarrow> (error + response) \<times> cache_storage" where
  "handleApiRequest req cs net =
     (case net of
        Resolved networkResponse \<Rightarrow>
          (Inr networkResponse,
           if shouldCache req \<and> req_method req = GET \<and> ok networkResponse
           then open_and_put req networkResponse cs else cs)
      | Rejected \<Rightarrow>
          (case (if req_method req = GET then caches_match cs (req_method req) (request_url req) else None) of
             Some cachedResponse \<Rightarrow> (Inr cachedResponse, cs)
           | None \<Rightarrow> (Inr offline_api_response, cs)))"

definition handleNavigationRequest :: "request \<Rightarrow> cache_storage \<Rightarrow> fetch_outcome \<Rightarrow> (error + response) \<times> cache_storage" where
  "handleNavigationRequest req cs net =
     (case net of
        Resolved networkResponse \<Rightarrow>
          (Inr networkResponse,
           if ok networkResponse then open_and_put req networkResponse cs else cs)
      | Rejected \<Rightarrow>
          (case caches_match cs (req_method req) (request_url req) of
             Some cachedResponse \<Rightarrow> (Inr cachedResponse, cs)
           | None \<Rightarrow>
               (case caches_match cs GET OFFLINE_URL of
                  Some offlineResponse \<Rightarrow> (Inr offlineResponse, cs)
                | None \<Rightarrow> (Inr inline_offline_page, cs))))"

definition handleStaticRequest :: "request \<Rightarrow> cache_storage \<Rightarrow> fetch_outcome \<Rightarrow> (error + response) \<times> cache_storage" where
  "handleStaticRequest req cs net =
     (case caches_match cs (req_method req) (request_url req) of
        Some cachedResponse \<Rightarrow> (Inr cachedResponse, cs)
      | None \<Rightarrow>
          (case net of
             Resolved networkResponse \<Rightarrow>
               (Inr networkResponse,
                if ok networkResponse \<and> req_method req = GET
                then open_and_put req networkResponse cs else cs)
           | Rejected \<Rightarrow> (Inl NetworkError, cs)))"

text \<open>
  The \<open>fetch\<close> listener: a cross-origin request is left to the browser (\<open>None\<close>: the
  worker does not respond and touches no cache); otherwise exactly one handler runs.
\<close>

definition fetch_listener :: "request \<Rightarrow> cache_storage \<Rightarrow> fetch_outcome \<Rightarrow> ((error + response) \<times> cache_storage) option" where
  "fetch_listener req cs net =
     (if \<not> req_same_origin req then None
      else if startsWith (req_pathname req) ''/api/'' then Some (handleApiRequest req cs net)
      else if req_mode req = Navigate then Some (handleNavigationRequest req cs net)
      else Some (handleStaticRequest req cs net))"

text \<open>Requests and a cache storage used to evaluate the handlers.\<close>

definition post_saved_case :: request where
  "post_saved_case =
     \<lparr>req_same_origin = True, req_pathname = ''/api/v1/users/saved-cases'', req_search = [],
      req_method = POST, req_mode = Cors\<rparr>"

definition get_search_page :: request where
  "get_search_page =
     \<lparr>req_same_origin = True, req_pathname = ''/search'', req_search = ''?q=loft'',
      req_method = GET, req_mode = Navigate\<rparr>"

definition page_response :: response where
  "page_response = \<lparr>resp_status = 200, resp_content_type = ''text/html'', resp_body = ''<html></html>''\<rparr>"

definition stale_saved_cases :: cache_storage where
  "stale_saved_cases = [(CACHE_NAME, [(''/api/v1/users/saved-cases'', page_response)])]"

definition post_form :: request where
  "post_form =
     \<lparr>req_same_origin = True, req_pathname = ''/contact'', req_search = [],
      req_method = POST, req_mode = Navigate\<rparr>"

subsection \<open>Activation\<close>

text \<open>
  The \<open>activate\<close> listener: \<open>caches.keys()\<close>, \<open>filter(name => name !== CACHE_NAME)\<close>,
  \<open>caches.delete\<close> of each of them, and, once all deletions have settled
  (\<open>Promise.all(...).then\<close>), \<open>self.clients.claim()\<close>. The second component is the
  sequence of effects in the order they take place.
\<close>

datatype effect = CacheDeleted string | ClientsClaimed

definition activate :: "cache_storage \<Rightarrow> cache_storage \<times> effect list" where
  "activate cs =
     (let cacheNames = caches_keys cs;
          old = filter (\<lambda>name. name \<noteq> CACHE_NAME) cacheNames
      in (fold caches_delete old cs, map CacheDeleted old @ [ClientsClaimed]))"

text \<open>A storage with a previous generation and the current one.\<close>

definition two_generations :: cache_storage where
  "two_generations =
     [(''planning-precedent-v0'', [(''/'', page_response)]),
      (CACHE_NAME, [(''/offline'', page_response)])]"

subsection \<open>Push notifications\<close>

text \<open>
  \<open>event.data\<close> is absent or carries a payload. \<open>event.data.json()\<close> throws when the
  payload is not JSON; then the listener reads \<open>event.data.text()\<close>. A JSON payload
  parses to \<open>null\<close> or to a value whose properties are read; a property that is absent
  reads as \<open>undefined\<close>, here \<open>None\<close>. The fields \<open>data\<close> and \<open>actions\<close> are kept as opaque
  text.
\<close>

record push_fields =
  p_title :: "string option"
  p_body :: "string option"
  p_icon :: "string option"
  p_badge :: "string option"
  p_data :: "string option"
  p_actions :: "string option"

datatype push_payload = JsonNull | JsonValue push_fields | PlainText string

text \<open>
  What \<open>showNotification(data.title, options)\<close> receives. A title or body that is
  \<open>undefined\<close> is \<open>None\<close>.
\<close>

record notification =
  n_title :: "string option"
  n_body :: "string option"
  n_icon :: string
  n_badge :: string
  n_vibrate :: "nat list"
  n_data :: string
  n_actions :: string

text \<open>The object literal the listener starts from.\<close>

definition default_data :: push_fields where
  "default_data =
     \<lparr>p_title = Some ''Planning Precedent AI'',
      p_body = Some ''New notification'',
      p_icon = Some ''/icons/icon-192x192.png'',
      p_badge = Some ''/icons/badge-72x72.png'',
      p_data = None,
      p_actions = None\<rparr>"

text \<open>\<open>x || d\<close> on a string property: \<open>undefined\<close> and the empty string are falsy.\<close>

definition or_else :: "string option \<Rightarrow> string \<Rightarrow> string" where
  "or_else x d = (case x of None \<Rightarrow> d | Some s \<Rightarrow> if s = [] then d else s)"

definition push_listener :: "push_payload option \<Rightarrow> error + notification" where
  "push_listener event_data =
     (case (case event_data of
              None \<Rightarrow> Some default_data
            | Some JsonNull \<Rightarrow> None
            | Some (JsonValue parsed) \<Rightarrow> Some parsed
            | Some (PlainText t) \<Rightarrow> Some (default_data\<lparr>p_body := Some t\<rparr>)) of
        None \<Rightarrow> Inl TypeError
      | Some data \<Rightarrow>
          Inr \<lparr>n_title = p_title data,
               n_body = p_body data,
               n_icon = or_else (p_icon data) ''/icons/icon-192x192.png'',
               n_badge = or_else (p_badge data) ''/icons/badge-72x72.png'',
               n_vibrate = [100, 50, 100],
               n_data = or_else (p_data data) ''{}'',
               n_actions = or_else (p_actions data) ''[]''\<rparr>)"

text \<open>The JSON payload \<open>{"body": "Decision issued"}\<close>: no title, icon or badge.\<close>

definition body_only :: push_payload where
  "body_only =
     JsonValue \<lparr>p_title = None, p_body = Some ''Decision issued'', p_icon = None, p_badge = None,
                p_data = None, p_actions = None\<rparr>"

subsection \<open>Offline saved cases (IndexedDB)\<close>

text \<open>
  The object store \<open>saved-cases-offline\<close> has \<open>{ keyPath: 'reference' }\<close> and no key
  generator. \<open>saveCaseOffline(caseData)\<close> puts \<open>{...caseData, savedAt: Date.now()}\<close>.
  \<open>caseData\<close> is untyped in the source: it is modelled by the value at its key path
  (\<open>None\<close> when it has no \<open>reference\<close> property) and the rest of its content. \<open>put\<close> throws
  a DataError when the key path yields no key; otherwise it overwrites the record of that
  key or inserts a new one. The order of the list is not the key order of the store and
  no statement depends on it.
\<close>

record case_data =
  cd_reference :: "string option"
  cd_content :: string

record saved_case =
  sc_reference :: string
  sc_content :: string
  sc_savedAt :: nat

type_synonym offline_store = "saved_case list"

definition store_put :: "saved_case \<Rightarrow> offline_store \<Rightarrow> offline_store" where
  "store_put v st =
     (if list_ex (\<lambda>r. sc_reference r = sc_reference v) st
      then map (\<lambda>r. if sc_reference r = sc_reference v then v else r) st
      else st @ [v])"

definition saveCaseOffline :: "case_data \<Rightarrow> nat \<Rightarrow> offline_store \<Rightarrow> error + offline_store" where
  "saveCaseOffline caseData now st =
     (case cd_reference caseData of
        None \<Rightarrow> Inl DataError
      | Some k \<Rightarrow> Inr (store_put \<lparr>sc_reference = k, sc_content = cd_content caseData, sc_savedAt = now\<rparr> st))"

text \<open>A sequence of saves, each with the clock value at the call; a rejected save leaves the store as it was.\<close>

fun saveAllOffline :: "(case_data \<times> nat) list \<Rightarrow> offline_store \<Rightarrow> offline_store" where
  "saveAllOffline [] st = st"
| "saveAllOffline ((c, now) # cs) st =
     saveAllOffline cs (case saveCaseOffline c now st of Inl e \<Rightarrow> st | Inr st' \<Rightarrow> st')"

definition lookup_offline :: "offline_store \<Rightarrow> string \<Rightarrow> saved_case list" where
  "lookup_offline st k = filter (\<lambda>r. sc_reference r = k) st"

subsection \<open>The persisted stores\<close>

text \<open>
  \<open>useSavedCasesStore\<close>: \<open>cases\<close> is a list of planning decisions. Of a decision the model
  keeps \<open>id\<close>, \<open>case_reference\<close> and, as one text, the remaining fields.
\<close>

record planning_decision =
  d_id :: nat
  case_reference :: string
  d_details :: string

definition addCase :: "planning_decision \<Rightarrow> planning_decision list \<Rightarrow> planning_decision list" where
  "addCase decision cases =
     (if list_ex (\<lambda>c. case_reference c = case_reference decision) cases then cases
      else cases @ [decision])"

definition removeCase :: "string \<Rightarrow> planning_decision list \<Rightarrow> planning_decision list" where
  "removeCase caseRef cases = filter (\<lambda>c. case_reference c \<noteq> caseRef) cases"

definition isSaved :: "string \<Rightarrow> planning_decision list \<Rightarrow> bool" where
  "isSaved caseRef cases = list_ex (\<lambda>c. case_reference c = caseRef) cases"

fun addAllCases :: "planning_decision list \<Rightarrow> planning_decision list \<Rightarrow> planning_decision list" where
  "addAllCases [] cases = cases"
| "addAllCases (d # ds) cases = addAllCases ds (addCase d cases)"

text \<open>Two decisions with the same case reference and different content.\<close>

definition first_save :: planning_decision where
  "first_save = \<lparr>d_id = 1, case_reference = ''2023/1234/P'', d_details = ''as first saved''\<rparr>"

definition second_save :: planning_decision where
  "second_save = \<lparr>d_id = 1, case_reference = ''2023/1234/P'', d_details = ''as saved again''\<rparr>"

text \<open>
  \<open>useRecentSearchesStore\<close>: \<open>addSearch(query)\<close> puts \<open>{query, timestamp: Date.now()}\<close>
  in front of the entries with another query and keeps the first ten.
\<close>

record recent_search =
  s_query :: string
  s_timestamp :: nat

definition addSearch :: "string \<Rightarrow> nat \<Rightarrow> recent_search list \<Rightarrow> recent_search list" where
  "addSearch query now searches =
     take 10 (\<lparr>s_query = query, s_timestamp = now\<rparr> # filter (\<lambda>s. s_query s \<noteq> query) searches)"

definition clearSearches :: "recent_search list \<Rightarrow> recent_search list" where
  "clearSearches searches = []"

text \<open>The states of the store: the initial one and what its two actions make of a state.\<close>

inductive store_state :: "recent_search list \<Rightarrow> bool" where
  initial: "store_state []"
| added: "store_state s \<Longrightarrow> store_state (addSearch query now s)"
| cleared: "store_state s \<Longrightarrow> store_state (clearSearches s)"

section \<open>Verification\<close>

subsection \<open>Facts about the pending-action store\<close>

lemma store_wf_empty: "store_wf empty_store"
  by (simp add: store_wf_def empty_store_def)

lemma store_getAll_wf: "store_wf st \<Longrightarrow> store_getAll st = rows st"
  unfolding store_wf_def store_getAll_def
  using strict_sorted_iff[of "map a_id (rows st)"] by (simp add: sort_key_id_if_sorted)

lemma store_wf_add: "store_wf st \<Longrightarrow> store_wf (store_add ty d now st)"
  unfolding store_wf_def store_add_def
  by (auto simp: sorted_wrt_append list_all_iff less_Suc_eq)

lemma store_wf_delete: "store_wf st \<Longrightarrow> store_wf (store_delete i st)"
  unfolding store_wf_def store_delete_def
  by (auto simp: list_all_iff sorted_wrt_map intro: sorted_wrt_filter)

lemma store_wf_queueAll: "store_wf st \<Longrightarrow> store_wf (queueAll es st)"
  by (induction es st rule: queueAll.induct) (simp_all add: queueOfflineAction_def store_wf_add)

lemma store_wf_distinct: "store_wf st \<Longrightarrow> distinct (map a_id (rows st))"
  unfolding store_wf_def using strict_sorted_iff[of "map a_id (rows st)"] by simp

lemma filter_payload_type:
  "map payload (filter (\<lambda>a. a_type a = k) xs) = filter (\<lambda>e. fst e = k) (map payload xs)"
  by (induction xs) (simp_all add: payload_def)

lemma rows_queueAll: "\<exists>new. rows (queueAll es st) = rows st @ new \<and> map payload new = es"
proof (induction es st rule: queueAll.induct)
  case (1 st)
  show ?case by simp
next
  case (2 ty d now es st)
  let ?a = "\<lparr>a_id = keygen st, a_type = ty, a_data = d, a_timestamp = now\<rparr>"
  from 2 obtain new where
    new: "rows (queueAll es (queueOfflineAction ty d now st)) = rows (queueOfflineAction ty d now st) @ new"
      "map payload new = es"
    by (elim exE conjE)
  have "rows (queueAll ((ty, d, now) # es) st) = rows st @ (?a # new)"
    using new(1) by (simp add: queueOfflineAction_def store_add_def)
  moreover have "map payload (?a # new) = (ty, d, now) # es"
    using new(2) by (simp add: payload_def)
  ultimately show ?case by (intro exI[of _ "?a # new"] conjI)
qed

lemma filter_swap: "filter P (filter Q xs) = filter Q (filter P xs)"
  by (induction xs) simp_all

lemma delete_head_of_listing:
  fixes xs :: "pending_action list"
  assumes "distinct (map a_id xs)" and "filter (\<lambda>a. a_type a = k) xs = a # rest"
  shows "filter (\<lambda>a. a_type a = k) (filter (\<lambda>b. a_id b \<noteq> a_id a) xs) = rest"
proof -
  have "distinct (map a_id (filter (\<lambda>a. a_type a = k) xs))"
    using assms(1) by (rule distinct_map_filter)
  then have "distinct (map a_id (a # rest))"
    by (simp only: assms(2))
  then have d: "\<forall>b\<in>set rest. a_id b \<noteq> a_id a"
    by (simp add: image_iff) metis
  have "filter (\<lambda>a. a_type a = k) (filter (\<lambda>b. a_id b \<noteq> a_id a) xs)
        = filter (\<lambda>b. a_id b \<noteq> a_id a) (filter (\<lambda>a. a_type a = k) xs)"
    by (rule filter_swap)
  also have "\<dots> = filter (\<lambda>b. a_id b \<noteq> a_id a) (a # rest)"
    by (simp only: assms(2))
  also have "\<dots> = filter (\<lambda>b. a_id b \<noteq> a_id a) rest"
    by simp
  also have "\<dots> = rest"
    using d by (rule filter_True)
  finally show ?thesis .
qed

subsection \<open>Claims about the pending-action queue\<close>

text \<open>
  Claim C4. For every kind \<open>k\<close> and every sequence \<open>es\<close> of enqueues on a well-formed
  store, listing the pending items of kind \<open>k\<close> afterwards returns the items listed
  before followed by the enqueued items of that kind, in enqueue order (on a store with
  no item of that kind: exactly the enqueued ones, oldest first); and when that listing
  is \<open>a # rest\<close>, removing \<open>a\<close> by its id and listing again returns \<open>rest\<close>, the remaining
  items in their original relative order.
\<close>

theorem queue_lists_in_enqueue_order:
  assumes "store_wf st"
  shows "\<exists>old new.
           getPendingActions None st k = Inr old \<and>
           getPendingActions None (queueAll es st) k = Inr (old @ new) \<and>
           map payload new = filter (\<lambda>e. fst e = k) es \<and>
           (\<forall>a rest. old @ new = a # rest \<longrightarrow>
              (\<exists>st'. removePendingAction None (queueAll es st) k (a_id a) = Inr st' \<and>
                     getPendingActions None st' k = Inr rest))"
proof -
  let ?st = "queueAll es st"
  let ?P = "\<lambda>a. a_type a = k"
  obtain added where added: "rows ?st = rows st @ added" "map payload added = es"
    using rows_queueAll by blast
  have wf: "store_wf ?st" using assms by (rule store_wf_queueAll)
  have l0: "getPendingActions None st k = Inr (filter ?P (rows st))"
    by (simp add: getPendingActions_def store_getAll_wf[OF assms])
  have l1: "getPendingActions None ?st k = Inr (filter ?P (rows st) @ filter ?P added)"
    by (simp add: getPendingActions_def store_getAll_wf[OF wf] added(1))
  have l2: "map payload (filter ?P added) = filter (\<lambda>e. fst e = k) es"
    using added(2) by (simp add: filter_payload_type)
  have l3: "\<exists>st'. removePendingAction None ?st k (a_id a) = Inr st' \<and>
                  getPendingActions None st' k = Inr rest"
    if "filter ?P (rows st) @ filter ?P added = a # rest" for a rest
  proof -
    let ?st' = "store_delete (a_id a) ?st"
    have f: "filter ?P (rows ?st) = a # rest" using that by (simp add: added(1))
    have r: "rows ?st' = filter (\<lambda>b. a_id b \<noteq> a_id a) (rows ?st)"
      by (simp add: store_delete_def)
    have "store_getAll ?st' = rows ?st'"
      using store_wf_delete[OF wf] by (rule store_getAll_wf)
    then have "filter ?P (store_getAll ?st') = rest"
      using delete_head_of_listing[OF store_wf_distinct[OF wf] f] by (simp only: r)
    then have "getPendingActions None ?st' k = Inr rest"
      by (simp add: getPendingActions_def)
    then show ?thesis by (simp add: removePendingAction_def)
  qed
  have l4: "\<forall>a rest. filter ?P (rows st) @ filter ?P added = a # rest \<longrightarrow>
              (\<exists>st'. removePendingAction None ?st k (a_id a) = Inr st' \<and>
                     getPendingActions None st' k = Inr rest)"
    using l3 by (intro allI impI)
  show ?thesis
    by (rule exI[of _ "filter ?P (rows st)"], rule exI[of _ "filter ?P added"])
       (intro conjI l0 l1 l2 l4)
qed

text \<open>
  At the empty store, with an enqueue of another kind in between: the two saves are
  listed in order, and after removing the first one the second is what is left.
\<close>

theorem queue_lists_in_enqueue_order_witness:
  "store_wf empty_store \<and>
   getPendingActions None (queueAll three_enqueues empty_store) ''saved-cases''
     = Inr [\<lparr>a_id = 1, a_type = ''saved-cases'', a_data = ''A'', a_timestamp = 10\<rparr>,
            \<lparr>a_id = 3, a_type = ''saved-cases'', a_data = ''B'', a_timestamp = 12\<rparr>] \<and>
   (\<exists>st'. removePendingAction None (queueAll three_enqueues empty_store) ''saved-cases'' 1 = Inr st' \<and>
          getPendingActions None st' ''saved-cases''
            = Inr [\<lparr>a_id = 3, a_type = ''saved-cases'', a_data = ''B'', a_timestamp = 12\<rparr>])"
proof -
  let ?a = "\<lparr>a_id = 1, a_type = ''saved-cases'', a_data = ''A'', a_timestamp = 10\<rparr>"
  let ?b = "\<lparr>a_id = 3, a_type = ''saved-cases'', a_data = ''B'', a_timestamp = 12\<rparr>"
  let ?q = "queueAll three_enqueues empty_store"
  have v: "getPendingActions None ?q ''saved-cases'' = Inr [?a, ?b]"
    by (simp add: three_enqueues_def empty_store_def queueOfflineAction_def store_add_def
        getPendingActions_def store_getAll_def)
  from queue_lists_in_enqueue_order[OF store_wf_empty, of "''saved-cases''" three_enqueues]
  obtain old new where
    n: "getPendingActions None ?q ''saved-cases'' = Inr (old @ new)" and
    r: "\<forall>a rest. old @ new = a # rest \<longrightarrow>
          (\<exists>st'. removePendingAction None ?q ''saved-cases'' (a_id a) = Inr st' \<and>
                 getPendingActions None st' ''saved-cases'' = Inr rest)"
    by (elim exE conjE)
  from n v have "old @ new = ?a # [?b]" by simp
  with r have "\<exists>st'. removePendingAction None ?q ''saved-cases'' (a_id ?a) = Inr st' \<and>
                 getPendingActions None st' ''saved-cases'' = Inr [?b]"
    by (elim allE impE)
  then have "\<exists>st'. removePendingAction None ?q ''saved-cases'' 1 = Inr st' \<and>
                 getPendingActions None st' ''saved-cases'' = Inr [?b]"
    by simp
  with store_wf_empty v show ?thesis by (intro conjI)
qed

text \<open>
  Claim C8. With the storage working, removing a PendingAction by an id that no queued
  item has resolves (no rejection) and returns the store unchanged, so every queued item
  stays as it was; and removing an id a second time resolves with the store the first
  removal produced.
\<close>

theorem remove_is_idempotent:
  "(i \<notin> a_id ` set (rows st) \<longrightarrow> removePendingAction None st ty i = Inr st) \<and>
   (removePendingAction None st ty i = Inr st' \<longrightarrow> removePendingAction None st' ty i = Inr st')"
proof (intro conjI impI)
  assume "i \<notin> a_id ` set (rows st)"
  then have "filter (\<lambda>a. a_id a \<noteq> i) (rows st) = rows st"
    by (intro filter_True) (metis imageI)
  then show "removePendingAction None st ty i = Inr st"
    by (simp add: removePendingAction_def store_delete_def)
next
  assume "removePendingAction None st ty i = Inr st'"
  then have "st' = store_delete i st"
    by (simp add: removePendingAction_def)
  then show "removePendingAction None st' ty i = Inr st'"
    by (simp add: removePendingAction_def store_delete_def)
qed

theorem remove_is_idempotent_witness:
  "7 \<notin> a_id ` set (rows two_saves) \<and>
   removePendingAction None two_saves ''saved-cases'' 7 = Inr two_saves \<and>
   removePendingAction None two_saves ''saved-cases'' 1 = Inr (store_delete 1 two_saves) \<and>
   removePendingAction None (store_delete 1 two_saves) ''saved-cases'' 1 = Inr (store_delete 1 two_saves)"
proof -
  have a: "7 \<notin> a_id ` set (rows two_saves)"
    by (simp add: two_saves_def)
  have b: "removePendingAction None two_saves ''saved-cases'' 1 = Inr (store_delete 1 two_saves)"
    by (simp add: removePendingAction_def)
  from a b remove_is_idempotent[of 7 two_saves "''saved-cases''"]
    remove_is_idempotent[of 1 two_saves "''saved-cases''" "store_delete 1 two_saves"]
  show ?thesis by simp
qed

subsection \<open>Facts about the sync reconciler\<close>

text \<open>
  Every item read at the start of the drain is replayed, whatever happened to the items
  before it, and with the storage working the items that stay are those of another kind
  and those whose replay \<open>fetch\<close> rejected.
\<close>

lemma drain_sent: "snd (drain env ep ty as st) = map (\<lambda>a. (ep, a_data a)) as"
  by (induction as arbitrary: st) (simp_all add: split_beta Let_def)

lemma drain_rows:
  "rows (fst (drain env ep ty as st)) =
     filter (\<lambda>b. \<not> list_ex (\<lambda>a. a_id b = a_id a \<and> replay env a \<noteq> Rejected \<and> delete_fault env a = None) as)
       (rows st)"
proof (induction as arbitrary: st)
  case Nil
  show ?case by simp
next
  case (Cons a as)
  show ?case
  proof (cases "replay env a")
    case Rejected
    then show ?thesis using Cons[of st] by (simp add: split_beta Let_def)
  next
    case (Resolved r)
    show ?thesis
    proof (cases "delete_fault env a")
      case None
      then show ?thesis
        using Resolved Cons[of "store_delete (a_id a) st"]
        by (simp add: split_beta Let_def removePendingAction_def store_delete_def conj_comms)
    next
      case (Some e)
      then show ?thesis
        using Resolved Cons[of st] by (simp add: split_beta Let_def removePendingAction_def)
    qed
  qed
qed

lemma sync_keeps_exactly_rejected:
  assumes wf: "store_wf st"
    and storage: "open_fault env = None" "list_fault env = None" "\<forall>a. delete_fault env a = None"
  shows "rows (fst (sync env ep ty st)) =
           filter (\<lambda>b. a_type b \<noteq> ty \<or> replay env b = Rejected) (rows st)"
    and "snd (sync env ep ty st) = map (\<lambda>a. (ep, a_data a)) (filter (\<lambda>a. a_type a = ty) (rows st))"
proof -
  let ?pending = "filter (\<lambda>a. a_type a = ty) (rows st)"
  have s: "sync env ep ty st = drain env ep ty ?pending st"
    using storage by (simp add: sync_def getPendingActions_def store_getAll_wf[OF wf])
  have inj: "inj_on a_id (set (rows st))"
    using store_wf_distinct[OF wf] by (simp add: distinct_map)
  have "list_ex (\<lambda>a. a_id b = a_id a \<and> replay env a \<noteq> Rejected \<and> delete_fault env a = None) ?pending
        \<longleftrightarrow> (a_type b = ty \<and> replay env b \<noteq> Rejected)" if "b \<in> set (rows st)" for b
    using that storage(3) inj by (auto simp: list_ex_iff dest: inj_onD)
  then show "rows (fst (sync env ep ty st)) =
           filter (\<lambda>b. a_type b \<noteq> ty \<or> replay env b = Rejected) (rows st)"
    unfolding s drain_rows by (intro filter_cong) auto
  show "snd (sync env ep ty st) = map (\<lambda>a. (ep, a_data a)) ?pending"
    unfolding s by (rule drain_sent)
qed

text \<open>
  Claim C1. The claim: during a drain an item is removed if and only if its replay
  succeeds; an item whose replay fails, a remote server error such as a response with
  status 500 included, stays queued, and later items are still replayed. On the code
  the second item is replayed after the first, but the first item, answered with status
  500, is removed as well: \<open>fetch\<close> resolves on an HTTP error status and the drain never
  reads \<open>response.ok\<close>. Evaluated on the store with two queued saves.
\<close>

theorem sync_removes_item_answered_500:
  "\<not> ok server_error \<and>
   replay first_fails_500 \<lparr>a_id = 1, a_type = ''saved-cases'', a_data = ''A'', a_timestamp = 10\<rparr>
     = Resolved server_error \<and>
   syncSavedCases first_fails_500 two_saves =
     (\<lparr>keygen = 3, rows = []\<rparr>,
      [(''/api/v1/users/saved-cases'', ''A''), (''/api/v1/users/saved-cases'', ''B'')])"
  by (simp add: syncSavedCases_def sync_def first_fails_500_def two_saves_def getPendingActions_def
      store_getAll_def removePendingAction_def store_delete_def server_error_def created_def ok_def)

text \<open>With the network failing for the first item instead, that item stays queued.\<close>

lemma sync_keeps_item_on_network_failure:
  "syncSavedCases first_fails_network two_saves =
     (\<lparr>keygen = 3, rows = [\<lparr>a_id = 1, a_type = ''saved-cases'', a_data = ''A'', a_timestamp = 10\<rparr>]\<rparr>,
      [(''/api/v1/users/saved-cases'', ''A''), (''/api/v1/users/saved-cases'', ''B'')])"
  by (simp add: syncSavedCases_def sync_def first_fails_network_def two_saves_def getPendingActions_def
      store_getAll_def removePendingAction_def store_delete_def created_def)

subsection \<open>Facts about the cache storage\<close>

lemma cache_entries_append: "cache_entries (cs @ ds) = cache_entries cs @ cache_entries ds"
  by (simp add: cache_entries_def)

lemma cache_entries_caches_open: "cache_entries (caches_open name cs) = cache_entries cs"
  by (simp add: caches_open_def cache_entries_def)

lemma cache_put_rejected: "req_method req \<noteq> GET \<Longrightarrow> cache_put req resp c = c"
  by (simp add: cache_put_def)

lemma open_and_put_non_get:
  assumes "req_method req \<noteq> GET"
  shows "cache_entries (open_and_put req resp cs) = cache_entries cs"
proof -
  have "(\<lambda>(n, c). if n = CACHE_NAME then (n, cache_put req resp c) else (n, c)) = (\<lambda>x. x)"
    using assms by (auto simp: cache_put_rejected fun_eq_iff)
  then have "open_and_put req resp cs = caches_open CACHE_NAME cs"
    by (simp add: open_and_put_def)
  then show ?thesis by (simp add: cache_entries_caches_open)
qed

subsection \<open>Claims about the fetch handlers\<close>

text \<open>
  Claim C2. The claim: when the network fails for an intercepted API-class request whose
  method is not GET, the caller gets the raw network error and no synthesized offline
  response, and the cache is consulted only for GET. On the code the \<open>catch\<close> branch of
  \<open>handleApiRequest\<close> ends, for every method, in the synthesized JSON response with
  status 503 (the comment reads "Return offline response for failed API calls"): the
  promise never rejects. What holds: for an intercepted API-class request whose network
  request fails, a GET is answered from the cache when an entry matches and with the
  synthesized response otherwise; a request of any other method is answered with the
  synthesized response whatever the cache holds, and the cache storage is left as it was.
\<close>

theorem api_failure_response:
  assumes "req_same_origin req" and "startsWith (req_pathname req) ''/api/''"
  shows "fetch_listener req cs Rejected =
           Some (Inr (if req_method req = GET
                      then (case caches_match cs GET (request_url req) of
                              Some cachedResponse \<Rightarrow> cachedResponse
                            | None \<Rightarrow> offline_api_response)
                      else offline_api_response), cs)"
  using assms by (simp add: fetch_listener_def handleApiRequest_def split: option.splits)

text \<open>A failed POST, with an entry of the same URL in the cache: the entry is not used.\<close>

theorem api_failure_response_witness:
  "req_same_origin post_saved_case \<and> startsWith (req_pathname post_saved_case) ''/api/'' \<and>
   req_method post_saved_case \<noteq> GET \<and>
   fetch_listener post_saved_case stale_saved_cases Rejected = Some (Inr offline_api_response, stale_saved_cases)"
proof -
  have a: "req_same_origin post_saved_case" and b: "startsWith (req_pathname post_saved_case) ''/api/''"
    and c: "req_method post_saved_case \<noteq> GET"
    by (simp_all add: post_saved_case_def startsWith_def)
  from api_failure_response[OF a b, of stale_saved_cases] a b c show ?thesis by simp
qed

text \<open>The claim as stated fails on a POST to the saved-cases endpoint: no error is surfaced.\<close>

theorem api_post_failure_is_not_raw_error:
  "fetch_listener post_saved_case [] Rejected = Some (Inr offline_api_response, []) \<and>
   fst (handleApiRequest post_saved_case [] Rejected) \<noteq> Inl NetworkError"
  by (simp add: fetch_listener_def handleApiRequest_def post_saved_case_def startsWith_def)

text \<open>
  Claim C3. For every intercepted request, of each of the three route classes and for
  every outcome of the network request, the entries of the cache storage change only
  when the request method is GET and the network responded with a status from 200 to
  299; a request of another method creates no entry. The API and the static handler test
  the method themselves. The navigation handler tests only \<open>networkResponse.ok\<close> and calls
  \<open>cache.put\<close> for any method; for a method other than GET it is \<open>cache.put\<close> that
  refuses the entry.
\<close>

theorem cache_written_only_for_ok_get:
  assumes "fetch_listener req cs net = Some (res, cs')"
    and "cache_entries cs' \<noteq> cache_entries cs"
  shows "req_method req = GET \<and> (\<exists>resp. net = Resolved resp \<and> ok resp)"
proof -
  have unchanged: "cache_entries cs' = cache_entries cs"
    if "req_method req \<noteq> GET \<or> (\<forall>resp. net = Resolved resp \<longrightarrow> \<not> ok resp)"
    using that assms(1)
    by (auto simp: fetch_listener_def handleApiRequest_def handleNavigationRequest_def
        handleStaticRequest_def open_and_put_non_get
        split: if_splits fetch_outcome.splits option.splits)
  with assms(2) show ?thesis by blast
qed

text \<open>A successful GET navigation does write an entry.\<close>

theorem cache_written_only_for_ok_get_witness:
  "fetch_listener get_search_page [] (Resolved page_response)
     = Some (Inr page_response, [(CACHE_NAME, [(''/search?q=loft'', page_response)])]) \<and>
   cache_entries [(CACHE_NAME, [(''/search?q=loft'', page_response)])] \<noteq> cache_entries [] \<and>
   req_method get_search_page = GET \<and> ok page_response"
proof -
  have a: "fetch_listener get_search_page [] (Resolved page_response)
     = Some (Inr page_response, [(CACHE_NAME, [(''/search?q=loft'', page_response)])])"
    by (simp add: fetch_listener_def get_search_page_def startsWith_def handleNavigationRequest_def
        page_response_def ok_def open_and_put_def caches_open_def caches_keys_def cache_put_def request_url_def)
  have b: "cache_entries [(CACHE_NAME, [(''/search?q=loft'', page_response)])] \<noteq> cache_entries []"
    by (simp add: cache_entries_def)
  from cache_written_only_for_ok_get[OF a b] a b show ?thesis by simp
qed

text \<open>
  A successful POST navigation: the current cache is opened, and so created, but no
  entry is stored.
\<close>

lemma navigation_post_creates_no_entry:
  "fetch_listener post_form [] (Resolved page_response) = Some (Inr page_response, [(CACHE_NAME, [])])"
  by (simp add: fetch_listener_def post_form_def startsWith_def handleNavigationRequest_def
      page_response_def ok_def open_and_put_def caches_open_def caches_keys_def cache_put_def)

text \<open>
  Claim C5. For every Navigation-class request whose network request fails, the response
  is the entry \<open>caches.match(request)\<close> finds for the requested page if there is one;
  otherwise the entry for the offline document \<open>/offline\<close> if there is one; otherwise the
  inline HTML document, whose status is 503.
\<close>

theorem navigation_offline_fallback_chain:
  assumes "req_same_origin req" and "\<not> startsWith (req_pathname req) ''/api/''"
    and "req_mode req = Navigate"
  shows "fetch_listener req cs Rejected =
           Some (Inr (case caches_match cs (req_method req) (request_url req) of
                        Some cachedResponse \<Rightarrow> cachedResponse
                      | None \<Rightarrow>
                          (case caches_match cs GET OFFLINE_URL of
                             Some offlineResponse \<Rightarrow> offlineResponse
                           | None \<Rightarrow> inline_offline_page)), cs)
         \<and> resp_status inline_offline_page = 503
         \<and> resp_content_type inline_offline_page = ''text/html''"
  using assms
  by (simp add: fetch_listener_def handleNavigationRequest_def inline_offline_page_def split: option.splits)

text \<open>With an empty storage the inline document is served, with the offline document cached that one.\<close>

theorem navigation_offline_fallback_chain_witness:
  "req_same_origin get_search_page \<and> \<not> startsWith (req_pathname get_search_page) ''/api/'' \<and>
   req_mode get_search_page = Navigate \<and>
   fetch_listener get_search_page [] Rejected = Some (Inr inline_offline_page, []) \<and>
   fetch_listener get_search_page two_generations Rejected = Some (Inr page_response, two_generations) \<and>
   resp_status inline_offline_page = 503"
proof -
  have a: "req_same_origin get_search_page" and b: "\<not> startsWith (req_pathname get_search_page) ''/api/''"
    and c: "req_mode get_search_page = Navigate"
    by (simp_all add: get_search_page_def startsWith_def)
  have d: "caches_match two_generations (req_method get_search_page) (request_url get_search_page) = None"
    by (simp add: two_generations_def get_search_page_def request_url_def cache_match_def)
  have e: "caches_match two_generations GET OFFLINE_URL = Some page_response"
    by (simp add: two_generations_def OFFLINE_URL_def cache_match_def)
  from navigation_offline_fallback_chain[OF a b c, of "[]"]
    navigation_offline_fallback_chain[OF a b c, of two_generations] a b c d e
  show ?thesis by simp
qed

subsection \<open>Claims about activation and push\<close>

lemma fold_caches_delete:
  "fold caches_delete names cs = filter (\<lambda>(n, c). n \<notin> set names) cs"
proof (induction names arbitrary: cs)
  case Nil
  show ?case by simp
next
  case (Cons name names)
  have "fold caches_delete (name # names) cs = fold caches_delete names (caches_delete name cs)"
    by simp
  also have "\<dots> = filter (\<lambda>(n, c). n \<notin> set names) (filter (\<lambda>(n, c). n \<noteq> name) cs)"
    by (simp add: Cons caches_delete_def)
  also have "\<dots> = filter (\<lambda>(n, c). n \<notin> set (name # names)) cs"
    by (auto intro: filter_cong)
  finally show ?case .
qed

lemma activate_storage: "fst (activate cs) = filter (\<lambda>(n, c). n = CACHE_NAME) cs"
proof -
  have "fst (activate cs) =
      filter (\<lambda>(n, c). n \<notin> set (filter (\<lambda>name. name \<noteq> CACHE_NAME) (caches_keys cs))) cs"
    by (simp add: activate_def Let_def fold_caches_delete)
  also have "\<dots> = filter (\<lambda>(n, c). n = CACHE_NAME) cs"
    by (rule filter_cong) (auto simp: caches_keys_def rev_image_eqI)
  finally show ?thesis .
qed

lemma cache_entries_filter:
  "cache_entries (filter (\<lambda>(n, c). P n) cs) = filter (\<lambda>(n, u, r). P n) (cache_entries cs)"
proof (induction cs)
  case Nil
  show ?case by (simp add: cache_entries_def)
next
  case (Cons x cs)
  obtain n c where x: "x = (n, c)" by (cases x)
  have "filter (\<lambda>(n', u, r). P n') (map (\<lambda>(u, r). (n, u, r)) c)
          = (if P n then map (\<lambda>(u, r). (n, u, r)) c else [])"
    by (induction c) auto
  then show ?case using Cons by (simp add: cache_entries_def x)
qed

lemma caches_match_entry:
  "caches_match cs m url = Some r \<Longrightarrow> \<exists>n. (n, url, r) \<in> set (cache_entries cs)"
proof (induction cs)
  case Nil
  then show ?case by simp
next
  case (Cons x cs)
  obtain n c where x: "x = (n, c)" by (cases x)
  show ?case
  proof (cases "cache_match c m url")
    case None
    then have "caches_match cs m url = Some r"
      using Cons.prems by (simp add: x)
    from Cons.IH[OF this] obtain n' where "(n', url, r) \<in> set (cache_entries cs)"
      by (elim exE)
    then have "(n', url, r) \<in> set (cache_entries (x # cs))"
      by (simp add: cache_entries_def)
    then show ?thesis by (rule exI)
  next
    case (Some r')
    then have "r' = r" using Cons.prems by (simp add: x)
    then have "map_of c url = Some r"
      using Some by (simp add: cache_match_def split: if_splits)
    then have "(url, r) \<in> set c" by (rule map_of_SomeD)
    then have "(n, url, r) \<in> set (cache_entries (x # cs))"
      by (force simp: cache_entries_def x)
    then show ?thesis by (rule exI)
  qed
qed

text \<open>
  Claim C6. On activation every cache whose name is not the current one is deleted, and
  the clients are claimed after all the deletions: the effects are the deletions of
  exactly the other names followed, last, by the claim. Afterwards the storage holds
  the caches of the current name and nothing else, its entries are the entries the
  current generation had, and whatever \<open>caches.match\<close> still finds is an entry of the
  current generation.
\<close>

theorem activation_purges_old_generations:
  "fst (activate cs) = filter (\<lambda>(n, c). n = CACHE_NAME) cs \<and>
   cache_entries (fst (activate cs)) = filter (\<lambda>(n, u, r). n = CACHE_NAME) (cache_entries cs) \<and>
   (caches_match (fst (activate cs)) m url = Some r \<longrightarrow> (CACHE_NAME, url, r) \<in> set (cache_entries cs)) \<and>
   snd (activate cs) =
     map CacheDeleted (filter (\<lambda>name. name \<noteq> CACHE_NAME) (caches_keys cs)) @ [ClientsClaimed] \<and>
   last (snd (activate cs)) = ClientsClaimed \<and>
   ClientsClaimed \<notin> set (butlast (snd (activate cs)))"
proof -
  have a: "fst (activate cs) = filter (\<lambda>(n, c). n = CACHE_NAME) cs"
    by (rule activate_storage)
  have b: "cache_entries (fst (activate cs)) = filter (\<lambda>(n, u, r). n = CACHE_NAME) (cache_entries cs)"
    unfolding a by (rule cache_entries_filter)
  have c: "snd (activate cs) =
     map CacheDeleted (filter (\<lambda>name. name \<noteq> CACHE_NAME) (caches_keys cs)) @ [ClientsClaimed]"
    by (simp add: activate_def Let_def)
  have d: "last (snd (activate cs)) = ClientsClaimed"
    unfolding c by simp
  have e: "ClientsClaimed \<notin> set (butlast (snd (activate cs)))"
    unfolding c by (auto simp: butlast_append)
  have f: "(CACHE_NAME, url, r) \<in> set (cache_entries cs)"
    if found: "caches_match (fst (activate cs)) m url = Some r"
  proof -
    from caches_match_entry[OF found]
    obtain n where "(n, url, r) \<in> set (cache_entries (fst (activate cs)))"
      by (elim exE)
    then show ?thesis unfolding b by auto
  qed
  from a b c d e f show ?thesis by (intro conjI impI)
qed

text \<open>
  With a previous generation holding \<open>/\<close> and the current one holding \<open>/offline\<close>: the
  previous cache is deleted, then the clients are claimed; \<open>/offline\<close> is still found.
\<close>

theorem activation_purges_old_generations_witness:
  "activate two_generations =
     ([(CACHE_NAME, [(''/offline'', page_response)])],
      [CacheDeleted ''planning-precedent-v0'', ClientsClaimed]) \<and>
   caches_match (fst (activate two_generations)) GET ''/offline'' = Some page_response \<and>
   (CACHE_NAME, ''/offline'', page_response) \<in> set (cache_entries two_generations) \<and>
   caches_match two_generations GET ''/'' = Some page_response \<and>
   caches_match (fst (activate two_generations)) GET ''/'' = None"
proof -
  have a: "activate two_generations =
     ([(CACHE_NAME, [(''/offline'', page_response)])],
      [CacheDeleted ''planning-precedent-v0'', ClientsClaimed])"
    by (simp add: activate_def two_generations_def caches_keys_def caches_delete_def CACHE_NAME_def)
  have b: "caches_match (fst (activate two_generations)) GET ''/offline'' = Some page_response"
    unfolding a by (simp add: cache_match_def)
  have c: "caches_match two_generations GET ''/'' = Some page_response"
    by (simp add: two_generations_def cache_match_def)
  have d: "caches_match (fst (activate two_generations)) GET ''/'' = None"
    unfolding a by (simp add: cache_match_def)
  from activation_purges_old_generations[of two_generations GET "''/offline''" page_response] b
  have "(CACHE_NAME, ''/offline'', page_response) \<in> set (cache_entries two_generations)"
    by (elim conjE) simp
  with a b c d show ?thesis by (intro conjI)
qed

text \<open>
  Claim C7. The claim: the payload is parsed as JSON if possible and read as text
  otherwise, and the notification shows the default title, body, icon and badge for each
  field the payload omits. On the code the defaults for title and body live in the object
  literal that \<open>data = event.data.json()\<close> replaces as a whole, and only icon and badge
  are defaulted again when the options are built. A JSON payload without a title is shown
  with the title \<open>undefined\<close>, not with the default title. Evaluated on the payload
  \<open>{"body": "Decision issued"}\<close>.
\<close>

theorem push_without_title_shows_no_default_title:
  "push_listener (Some body_only) =
     Inr \<lparr>n_title = None, n_body = Some ''Decision issued'',
          n_icon = ''/icons/icon-192x192.png'', n_badge = ''/icons/badge-72x72.png'',
          n_vibrate = [100, 50, 100], n_data = ''{}'', n_actions = ''[]''\<rparr> \<and>
   p_title default_data = Some ''Planning Precedent AI''"
  by (simp add: push_listener_def body_only_def or_else_def default_data_def)

text \<open>An absent payload and a payload that is not JSON do get the defaults.\<close>

lemma push_empty_payload_all_defaults:
  "push_listener None =
     Inr \<lparr>n_title = Some ''Planning Precedent AI'', n_body = Some ''New notification'',
          n_icon = ''/icons/icon-192x192.png'', n_badge = ''/icons/badge-72x72.png'',
          n_vibrate = [100, 50, 100], n_data = ''{}'', n_actions = ''[]''\<rparr>"
  by (simp add: push_listener_def or_else_def default_data_def)

lemma push_plain_text:
  "push_listener (Some (PlainText t)) =
     Inr \<lparr>n_title = Some ''Planning Precedent AI'', n_body = Some t,
          n_icon = ''/icons/icon-192x192.png'', n_badge = ''/icons/badge-72x72.png'',
          n_vibrate = [100, 50, 100], n_data = ''{}'', n_actions = ''[]''\<rparr>"
  by (simp add: push_listener_def or_else_def default_data_def)

subsection \<open>Claims about the saved cases and the recent searches\<close>

lemma store_put_Cons:
  fixes v x :: saved_case
  shows "store_put v (x # xs) =
     (if sc_reference x = sc_reference v
      then v # map (\<lambda>r. if sc_reference r = sc_reference v then v else r) xs
      else x # store_put v xs)"
  by (simp add: store_put_def)

lemma map_replace_absent:
  fixes v :: saved_case
  assumes "sc_reference v \<notin> sc_reference ` set xs"
  shows "map (\<lambda>r. if sc_reference r = sc_reference v then v else r) xs = xs"
    and "store_put v xs = xs @ [v]"
    and "filter (\<lambda>r. sc_reference r = sc_reference v) xs = []"
proof -
  have n: "\<forall>r\<in>set xs. sc_reference r \<noteq> sc_reference v"
    using assms by (metis imageI)
  then show "map (\<lambda>r. if sc_reference r = sc_reference v then v else r) xs = xs"
    by (intro map_idI) simp
  from n show "store_put v xs = xs @ [v]"
    by (simp add: store_put_def list_ex_iff)
  from n show "filter (\<lambda>r. sc_reference r = sc_reference v) xs = []"
    by (intro filter_False) simp
qed

lemma keys_store_put:
  fixes v :: saved_case
  shows "map sc_reference (store_put v st) =
     (if sc_reference v \<in> sc_reference ` set st then map sc_reference st
      else map sc_reference st @ [sc_reference v])"
proof (induction st)
  case Nil
  show ?case by (simp add: store_put_def)
next
  case (Cons x xs)
  have "map (sc_reference \<circ> (\<lambda>r. if sc_reference r = sc_reference v then v else r)) xs = map sc_reference xs"
    by (rule map_cong) simp_all
  then show ?case using Cons by (simp add: store_put_Cons)
qed

lemma distinct_store_put:
  fixes v :: saved_case
  shows "distinct (map sc_reference st) \<Longrightarrow> distinct (map sc_reference (store_put v st))"
  by (simp add: keys_store_put)

lemma lookup_store_put:
  fixes v :: saved_case
  shows "distinct (map sc_reference st) \<Longrightarrow> lookup_offline (store_put v st) (sc_reference v) = [v]"
proof (induction st)
  case Nil
  show ?case by (simp add: store_put_def lookup_offline_def)
next
  case (Cons x xs)
  show ?case
  proof (cases "sc_reference x = sc_reference v")
    case True
    then have "sc_reference v \<notin> sc_reference ` set xs"
      using Cons.prems by simp
    then show ?thesis
      using True by (simp add: store_put_Cons lookup_offline_def map_replace_absent)
  next
    case False
    then show ?thesis
      using Cons by (simp add: store_put_Cons lookup_offline_def)
  qed
qed

lemma saveAllOffline_append:
  "saveAllOffline (xs @ ys) st = saveAllOffline ys (saveAllOffline xs st)"
  by (induction xs st rule: saveAllOffline.induct) simp_all

lemma distinct_saveAllOffline:
  "distinct (map sc_reference st) \<Longrightarrow> distinct (map sc_reference (saveAllOffline saves st))"
proof (induction saves st rule: saveAllOffline.induct)
  case (1 st)
  then show ?case by simp
next
  case (2 c now cs st)
  then show ?case
    by (cases "cd_reference c") (simp_all add: saveCaseOffline_def distinct_store_put)
qed

lemma distinct_addCase:
  fixes d :: planning_decision
  shows "distinct (map case_reference cases) \<Longrightarrow> distinct (map case_reference (addCase d cases))"
  by (auto simp: addCase_def list_ex_iff)

lemma distinct_addAllCases:
  "distinct (map case_reference cases) \<Longrightarrow> distinct (map case_reference (addAllCases ds cases))"
  by (induction ds cases rule: addAllCases.induct) (simp_all add: distinct_addCase)

text \<open>
  Claim C9. The claim: over every sequence of saves at most one local copy exists per
  business key, and a repeated save under the same key stores the most recently saved
  content. \<open>saveCaseOffline\<close> does both, by \<open>put\<close> on the key path \<open>reference\<close>.
  \<open>addCase\<close> keeps one copy per \<open>case_reference\<close> too, but by returning the state
  unchanged when the reference is already saved. What holds: every sequence of saves
  from the empty store leaves at most one copy per key in either store; a save through
  \<open>saveCaseOffline\<close> that carries a key leaves exactly its own content, stamped with its
  own time, under that key, whatever was saved before; \<open>addCase\<close> of a decision whose
  reference is already saved leaves the stored cases as they were.
\<close>

theorem one_copy_per_key:
  "distinct (map sc_reference (saveAllOffline saves [])) \<and>
   (cd_reference c = Some k \<longrightarrow>
      lookup_offline (saveAllOffline (saves @ [(c, now)]) []) k
        = [\<lparr>sc_reference = k, sc_content = cd_content c, sc_savedAt = now\<rparr>]) \<and>
   distinct (map case_reference (addAllCases ds [])) \<and>
   (isSaved (case_reference d) cases \<longrightarrow> addCase d cases = cases)"
proof (intro conjI impI)
  show a: "distinct (map sc_reference (saveAllOffline saves []))"
    by (rule distinct_saveAllOffline) simp
  show "lookup_offline (saveAllOffline (saves @ [(c, now)]) []) k
        = [\<lparr>sc_reference = k, sc_content = cd_content c, sc_savedAt = now\<rparr>]"
    if "cd_reference c = Some k"
  proof -
    let ?v = "\<lparr>sc_reference = k, sc_content = cd_content c, sc_savedAt = now\<rparr>"
    have "saveAllOffline (saves @ [(c, now)]) [] = store_put ?v (saveAllOffline saves [])"
      using that by (simp add: saveAllOffline_append saveCaseOffline_def)
    then show ?thesis
      using lookup_store_put[OF a, of ?v] by simp
  qed
  show "distinct (map case_reference (addAllCases ds []))"
    by (rule distinct_addAllCases) simp
  show "addCase d cases = cases" if "isSaved (case_reference d) cases"
    using that by (simp add: addCase_def isSaved_def)
qed

text \<open>The same reference saved twice, through either store.\<close>

theorem one_copy_per_key_witness:
  "cd_reference \<lparr>cd_reference = Some ''2023/1234/P'', cd_content = ''again''\<rparr> = Some ''2023/1234/P'' \<and>
   lookup_offline
     (saveAllOffline ([(\<lparr>cd_reference = Some ''2023/1234/P'', cd_content = ''first''\<rparr>, 5)]
        @ [(\<lparr>cd_reference = Some ''2023/1234/P'', cd_content = ''again''\<rparr>, 9)]) []) ''2023/1234/P''
     = [\<lparr>sc_reference = ''2023/1234/P'', sc_content = ''again'', sc_savedAt = 9\<rparr>] \<and>
   isSaved (case_reference second_save) [first_save] \<and>
   addCase second_save [first_save] = [first_save]"
proof -
  have a: "cd_reference \<lparr>cd_reference = Some ''2023/1234/P'', cd_content = ''again''\<rparr> = Some ''2023/1234/P''"
    by simp
  have b: "isSaved (case_reference second_save) [first_save]"
    by (simp add: isSaved_def first_save_def second_save_def)
  from a b
    one_copy_per_key[of "[(\<lparr>cd_reference = Some ''2023/1234/P'', cd_content = ''first''\<rparr>, 5)]"
      "\<lparr>cd_reference = Some ''2023/1234/P'', cd_content = ''again''\<rparr>" "''2023/1234/P''" 9
      "[]" second_save "[first_save]"]
  show ?thesis by simp
qed

text \<open>
  The claim as stated fails on \<open>addCase\<close>: after two saves under one reference with
  different content, the store holds the first content and not the second.
\<close>

theorem repeated_addCase_keeps_first:
  "addCase second_save (addCase first_save []) = [first_save] \<and>
   case_reference second_save = case_reference first_save \<and>
   second_save \<notin> set (addCase second_save (addCase first_save []))"
  by (simp add: addCase_def first_save_def second_save_def)

lemma addSearch_unfold:
  "addSearch q now s = \<lparr>s_query = q, s_timestamp = now\<rparr> # take 9 (filter (\<lambda>e. s_query e \<noteq> q) s)"
  by (simp add: addSearch_def take_Cons')

lemma store_state_distinct:
  fixes s :: "recent_search list"
  shows "store_state s \<Longrightarrow> distinct (map s_query s)"
proof (induction rule: store_state.induct)
  case initial
  show ?case by simp
next
  case (added s query now)
  have "distinct (map s_query (filter (\<lambda>e. s_query e \<noteq> query) s))"
    using added.IH by (rule distinct_map_filter)
  then have "distinct (map s_query (take 9 (filter (\<lambda>e. s_query e \<noteq> query) s)))"
    by (simp add: take_map[symmetric])
  moreover have "query \<notin> s_query ` set (take 9 (filter (\<lambda>e. s_query e \<noteq> query) s))"
  proof
    assume "query \<in> s_query ` set (take 9 (filter (\<lambda>e. s_query e \<noteq> query) s))"
    then obtain e where "e \<in> set (take 9 (filter (\<lambda>e. s_query e \<noteq> query) s))" "s_query e = query"
      by (elim imageE) simp
    from in_set_takeD[OF this(1)] this(2) show False by simp
  qed
  ultimately show ?case by (simp add: addSearch_unfold)
next
  case (cleared s)
  show ?case by (simp add: clearSearches_def)
qed

text \<open>
  Claim C10. For every state of the recent-searches store (the initial state and every
  state its actions produce) and every added query: after \<open>addSearch\<close> the list has at
  most 10 entries, the new entry with the added query is first, no query occurs twice,
  the added query occurs exactly once, and the other entries are the first nine of the
  previous entries with another query in their previous order, so that a query already
  present moves to the front.
\<close>

theorem addSearch_keeps_ten_distinct_newest_first:
  fixes s :: "recent_search list"
  assumes "store_state s"
  shows "length (addSearch q now s) \<le> 10 \<and>
         hd (addSearch q now s) = \<lparr>s_query = q, s_timestamp = now\<rparr> \<and>
         distinct (map s_query (addSearch q now s)) \<and>
         length (filter (\<lambda>e. s_query e = q) (addSearch q now s)) = 1 \<and>
         filter (\<lambda>e. s_query e \<noteq> q) (addSearch q now s) = take 9 (filter (\<lambda>e. s_query e \<noteq> q) s)"
proof -
  let ?others = "take 9 (filter (\<lambda>e. s_query e \<noteq> q) s)"
  have others: "\<forall>e\<in>set ?others. s_query e \<noteq> q"
  proof
    fix e
    assume "e \<in> set ?others"
    then have "e \<in> set (filter (\<lambda>e. s_query e \<noteq> q) s)"
      by (rule in_set_takeD)
    then show "s_query e \<noteq> q" by simp
  qed
  have a: "length (addSearch q now s) \<le> 10"
    by (simp add: addSearch_def)
  have b: "hd (addSearch q now s) = \<lparr>s_query = q, s_timestamp = now\<rparr>"
    by (simp add: addSearch_unfold)
  have c: "distinct (map s_query (addSearch q now s))"
    using store_state.added[OF assms] by (rule store_state_distinct)
  have f1: "filter (\<lambda>e. s_query e = q) ?others = []"
    by (rule filter_False[OF others])
  have f2: "filter (\<lambda>e. s_query e \<noteq> q) ?others = ?others"
    by (rule filter_True[OF others])
  have d: "length (filter (\<lambda>e. s_query e = q) (addSearch q now s)) = 1"
    unfolding addSearch_unfold using f1 by simp
  have e: "filter (\<lambda>e. s_query e \<noteq> q) (addSearch q now s) = ?others"
    unfolding addSearch_unfold using f2 by simp
  from a b c d e show ?thesis by (intro conjI)
qed

text \<open>Adding \<open>basement\<close> again after \<open>loft\<close> moves it to the front.\<close>

theorem addSearch_keeps_ten_distinct_newest_first_witness:
  "store_state (addSearch ''loft'' 1 (addSearch ''basement'' 0 [])) \<and>
   addSearch ''basement'' 2 (addSearch ''loft'' 1 (addSearch ''basement'' 0 []))
     = [\<lparr>s_query = ''basement'', s_timestamp = 2\<rparr>, \<lparr>s_query = ''loft'', s_timestamp = 1\<rparr>] \<and>
   distinct (map s_query (addSearch ''basement'' 2 (addSearch ''loft'' 1 (addSearch ''basement'' 0 []))))"
proof -
  let ?s = "addSearch ''loft'' 1 (addSearch ''basement'' 0 [])"
  have r: "store_state ?s"
    by (intro store_state.added store_state.initial)
  have v: "addSearch ''basement'' 2 ?s
     = [\<lparr>s_query = ''basement'', s_timestamp = 2\<rparr>, \<lparr>s_query = ''loft'', s_timestamp = 1\<rparr>]"
    by (simp add: addSearch_def)
  from addSearch_keeps_ten_distinct_newest_first[OF r, of "''basement''" 2]
  have "distinct (map s_query (addSearch ''basement'' 2 ?s))" by (elim conjE)
  with r v show ?thesis by (intro conjI)
qed

end
